theory Spec2Isabelle
  imports Main "HOL-Library.List_Lexorder" "HOL-Library.AList" "HOL-Library.Multiset"
begin

section \<open>changelog\_helper: release\_changelog.py\<close>

text \<open>
  A shallow embedding of \<^verbatim>\<open>src/changelog_helper/release_changelog.py\<close>.
  Python strings are \<open>string\<close>, Python's unbounded integers are \<open>int\<close>, a tuple of
  integers is an \<open>int list\<close> under the lexicographic order of
  \<open>HOL-Library.List_Lexorder\<close> (a proper prefix is smaller, as for Python tuples),
  every exception the source can raise is a constructor of \<open>error\<close>, and the file
  tree under the repository root together with the printed lines is an explicit state.
\<close>

subsection \<open>Exceptions\<close>

datatype error =
    CheckVersionException string
  | IndexError
  | ValueError
  | SystemExit nat
  | OSError
  | ShutilError
  | YAMLError
  | TypeError
  | AttributeError
  | KeyError string

subsection \<open>The builtins the version code uses\<close>

text \<open>
  \<^verbatim>\<open>str.split('.')\<close> with an explicit separator: the result always has at least one
  element, and an empty string gives one empty part.
\<close>

fun split :: "char \<Rightarrow> string \<Rightarrow> string list" where
  "split sep [] = [[]]"
| "split sep (c # cs) =
     (if c = sep then [] # split sep cs
      else (case split sep cs of
              [] \<Rightarrow> [[c]]
            | w # ws \<Rightarrow> (c # w) # ws))"

text \<open>
  \<^verbatim>\<open>int(s)\<close> on a string, base 10: surrounding whitespace is dropped, one optional
  sign follows, then decimal digits, where a single underscore may stand between two
  digits; anything else is a \<^verbatim>\<open>ValueError\<close>. Leading zeros are accepted. A
  \<open>char\<close> stands for a code point below 256. Of these \<^verbatim>\<open>int\<close> drops the six
  whitespace characters of C (tab to carriage return, and the space) and the two that
  it first turns into a space, U+0085 and U+00A0; the separators 0x1C to 0x1F stay
  where they are and make the conversion fail.
\<close>

definition is_space :: "char \<Rightarrow> bool" where
  "is_space c = (of_char c \<in> {9, 10, 11, 12, 13, 32, 133, 160 :: nat})"

definition is_digit :: "char \<Rightarrow> bool" where
  "is_digit c = (48 \<le> (of_char c :: nat) \<and> (of_char c :: nat) \<le> 57)"

definition digit_value :: "char \<Rightarrow> int" where
  "digit_value c = int (of_char c) - 48"

definition strip :: "string \<Rightarrow> string" where
  "strip s = rev (dropWhile is_space (rev (dropWhile is_space s)))"

fun digits :: "string \<Rightarrow> int \<Rightarrow> error + int" where
  "digits [] acc = Inr acc"
| "digits (c # cs) acc =
     (if is_digit c then digits cs (10 * acc + digit_value c)
      else if c = CHR ''_'' then
        (case cs of
           [] \<Rightarrow> Inl ValueError
         | d # ds \<Rightarrow>
             if is_digit d then digits ds (10 * acc + digit_value d) else Inl ValueError)
      else Inl ValueError)"

definition unsigned :: "string \<Rightarrow> error + int" where
  "unsigned s =
     (case s of
        [] \<Rightarrow> Inl ValueError
      | d # ds \<Rightarrow> if is_digit d then digits ds (digit_value d) else Inl ValueError)"

definition py_int :: "string \<Rightarrow> error + int" where
  "py_int s =
     (case strip s of
        [] \<Rightarrow> Inl ValueError
      | c # cs \<Rightarrow>
          if c = CHR ''-'' then
            (case unsigned cs of Inl e \<Rightarrow> Inl e | Inr n \<Rightarrow> Inr (- n))
          else if c = CHR ''+'' then unsigned cs
          else unsigned (c # cs))"

text \<open>
  \<^verbatim>\<open>tuple(map(int, parts))\<close>: the parts are converted from left to right and the
  first failure is raised.
\<close>

fun map_int :: "string list \<Rightarrow> error + int list" where
  "map_int [] = Inr []"
| "map_int (p # ps) =
     (case py_int p of
        Inl e \<Rightarrow> Inl e
      | Inr n \<Rightarrow> (case map_int ps of Inl e \<Rightarrow> Inl e | Inr ns \<Rightarrow> Inr (n # ns)))"

subsection \<open>Version identifiers\<close>

text \<open>
  \<^verbatim>\<open>check_version\<close> (lines 117 to 125). \<^verbatim>\<open>version_string[0]\<close> is evaluated first
  and raises \<^verbatim>\<open>IndexError\<close> on the empty string; \<^verbatim>\<open>version_string[1:]\<close> is a slice
  and never raises.
\<close>

definition check_version :: "string \<Rightarrow> error + unit" where
  "check_version version_string =
     (case version_string of
        [] \<Rightarrow> Inl IndexError
      | c # _ \<Rightarrow>
          if c \<noteq> CHR ''v'' then
            Inl (CheckVersionException ''Version should start with 'v', like v1.2.19'')
          else if length version_string < 2 then
            Inl (CheckVersionException ''You should provide version number, like v1.2.19'')
          else
            (case map_int (split CHR ''.'' (drop 1 version_string)) of
               Inl ValueError \<Rightarrow>
                 Inl (CheckVersionException
                       ''Version can contain only numbers divided by dots, like v1.2.19'')
             | Inl e \<Rightarrow> Inl e
             | Inr _ \<Rightarrow> Inr ()))"

text \<open>\<^verbatim>\<open>version_strings_key\<close> (lines 57 and 58), the sort key of a folder name.\<close>

definition version_strings_key :: "string \<Rightarrow> error + int list" where
  "version_strings_key version = map_int (split CHR ''.'' (drop 1 version))"

subsection \<open>Sorting with a key, newest first\<close>

text \<open>
  \<^verbatim>\<open>sorted(xs, key=k, reverse=True)\<close>: the key of every element is computed first,
  from left to right, and a key that raises aborts the sort; the list is then reversed,
  sorted stably in ascending key order and reversed again, which is how the interpreter
  keeps elements with equal keys in their original order.
\<close>

fun keyed :: "('a \<Rightarrow> error + 'k) \<Rightarrow> 'a list \<Rightarrow> error + ('k \<times> 'a) list" where
  "keyed key [] = Inr []"
| "keyed key (x # xs) =
     (case key x of
        Inl e \<Rightarrow> Inl e
      | Inr k \<Rightarrow> (case keyed key xs of Inl e \<Rightarrow> Inl e | Inr kxs \<Rightarrow> Inr ((k, x) # kxs)))"

definition sorted_reverse :: "('a \<Rightarrow> error + 'k :: linorder) \<Rightarrow> 'a list \<Rightarrow> error + 'a list" where
  "sorted_reverse key xs =
     (case keyed key xs of
        Inl e \<Rightarrow> Inl e
      | Inr kxs \<Rightarrow> Inr (map snd (rev (sort_key fst (rev kxs)))))"

subsection \<open>The file tree and the process state\<close>

text \<open>
  What a file holds is what the YAML library decodes from it: nothing (the decoder
  raises), a value that is not a mapping, or a mapping, taken here with string keys and
  string values. A folder is its listing, in the order \<^verbatim>\<open>os.listdir\<close> returns it; the
  entries of the unreleased folder and of a version folder are regular files. The state
  holds the four places under the repository root that the tool touches, the answers of
  the collaborators (today's date in ISO form, the configured user name; the
  version-control commands are taken to answer, and staging changes nothing the tool
  reads) and the lines printed so far.
\<close>

datatype content = Undecodable | Scalar | Mapping "(string \<times> string) list"

type_synonym folder = "(string \<times> content) list"

datatype entry = RegularFile | Folder folder

record world =
  unreleased :: "folder option"
  released :: "(string \<times> entry) list option"
  archive :: "string list option"
  changelog_md :: "string option"
  today :: string
  git_user :: string
  out :: "string list"

definition nl :: string where
  "nl = [CHR 0x0A]"

text \<open>\<^verbatim>\<open>x[-4:] == '.yml'\<close>; the slice of a shorter name is the whole name.\<close>

definition is_yml :: "string \<Rightarrow> bool" where
  "is_yml x = (drop (length x - 4) x = ''.yml'')"

text \<open>\<^verbatim>\<open>os.path.exists\<close> and \<^verbatim>\<open>os.path.isdir\<close> of an entry of the release area.\<close>

definition exists_released :: "string \<Rightarrow> world \<Rightarrow> bool" where
  "exists_released version s =
     (case released s of None \<Rightarrow> False | Some es \<Rightarrow> map_of es version \<noteq> None)"

definition isdir_released :: "string \<Rightarrow> world \<Rightarrow> bool" where
  "isdir_released folder s =
     (case released s of
        None \<Rightarrow> False
      | Some es \<Rightarrow> (case map_of es folder of Some (Folder _) \<Rightarrow> True | _ \<Rightarrow> False))"

text \<open>
  \<^verbatim>\<open>os.makedirs\<close> of the version folder: missing parents are created, an existing
  path raises. Where the new entry appears in the listing is up to the file system; the
  model puts it last.
\<close>

definition makedirs :: "string \<Rightarrow> world \<Rightarrow> (error + unit) \<times> world" where
  "makedirs version s =
     (case released s of
        None \<Rightarrow> (Inr (), s\<lparr>released := Some [(version, Folder [])]\<rparr>)
      | Some es \<Rightarrow>
          if map_of es version \<noteq> None then (Inl OSError, s)
          else (Inr (), s\<lparr>released := Some (es @ [(version, Folder [])])\<rparr>))"

text \<open>
  \<^verbatim>\<open>shutil.move\<close> of one unreleased file into the version folder, which line 30 has
  created: the file leaves the unreleased folder and enters the version folder under
  its own name, and a name already present there raises. A missing source raises too.
  The caller never reaches this line with a destination that is not a folder; those
  branches are closed with \<^verbatim>\<open>OSError\<close>.
\<close>

definition move :: "string \<Rightarrow> string \<Rightarrow> world \<Rightarrow> (error + unit) \<times> world" where
  "move yml_file version s =
     (case unreleased s of
        None \<Rightarrow> (Inl OSError, s)
      | Some fs \<Rightarrow>
          (case map_of fs yml_file of
             None \<Rightarrow> (Inl OSError, s)
           | Some c \<Rightarrow>
               (case released s of
                  None \<Rightarrow> (Inl OSError, s)
                | Some es \<Rightarrow>
                    (case map_of es version of
                       Some (Folder d) \<Rightarrow>
                         if map_of d yml_file \<noteq> None then (Inl ShutilError, s)
                         else (Inr (),
                               s\<lparr>unreleased := Some (AList.delete yml_file fs),
                                 released :=
                                   Some (AList.update version (Folder (d @ [(yml_file, c)])) es)\<rparr>)
                     | _ \<Rightarrow> (Inl OSError, s)))))"

fun move_all :: "string list \<Rightarrow> string \<Rightarrow> world \<Rightarrow> (error + unit) \<times> world" where
  "move_all [] version s = (Inr (), s)"
| "move_all (yml_file # files) version s =
     (case move yml_file version s of
        (Inl e, s') \<Rightarrow> (Inl e, s')
      | (Inr _, s') \<Rightarrow> move_all files version s')"

subsection \<open>Release transition\<close>

text \<open>\<^verbatim>\<open>write_release_info\<close> (lines 41 to 53).\<close>

definition write_release_info :: "string \<Rightarrow> world \<Rightarrow> (error + unit) \<times> world" where
  "write_release_info version s =
     (case released s of
        None \<Rightarrow> (Inl OSError, s)
      | Some es \<Rightarrow>
          (case map_of es version of
             Some (Folder d) \<Rightarrow>
               (let s1 = (if map_of d ''release-info'' \<noteq> None
                          then s\<lparr>out := out s @ [''Release-info already exists and will be erased'']\<rparr>
                          else s);
                    info = Mapping [(''date'', today s), (''released_by'', git_user s)]
                in (Inr (),
                    s1\<lparr>released :=
                         Some (AList.update version
                                 (Folder (AList.update ''release-info'' info d)) es)\<rparr>))
           | _ \<Rightarrow> (Inl OSError, s)))"

text \<open>\<^verbatim>\<open>move_unreleased_changelogs\<close> (lines 24 to 38); \<^verbatim>\<open>exit(1)\<close> raises \<^verbatim>\<open>SystemExit\<close>.\<close>

definition move_unreleased_changelogs :: "string \<Rightarrow> world \<Rightarrow> (error + unit) \<times> world" where
  "move_unreleased_changelogs version s =
     (if exists_released version s then
        (Inl (SystemExit 1), s\<lparr>out := out s @ [''Changelog for this version already exists.'']\<rparr>)
      else
        (case makedirs version s of
           (Inl e, s1) \<Rightarrow> (Inl e, s1)
         | (Inr _, s1) \<Rightarrow>
             (case unreleased s1 of
                None \<Rightarrow> (Inl OSError, s1)
              | Some fs \<Rightarrow>
                  (let files_to_move = filter is_yml (map fst fs)
                   in if length files_to_move = 0 then
                        (Inl (SystemExit 1),
                         s1\<lparr>out := out s1 @ [''There is no unreleased changes.'']\<rparr>)
                      else
                        (case move_all files_to_move version s1 of
                           (Inl e, s2) \<Rightarrow> (Inl e, s2)
                         | (Inr _, s2) \<Rightarrow> write_release_info version s2)))))"

subsection \<open>Reading the release area\<close>

text \<open>
  The loop of \<^verbatim>\<open>get_version_folders\<close> (lines 62 to 70). Only
  \<^verbatim>\<open>CheckVersionException\<close> is caught; any other exception leaves the loop.
\<close>

fun scan :: "string list \<Rightarrow> string list \<Rightarrow> world \<Rightarrow> (error + string list) \<times> world" where
  "scan [] version_folders s = (Inr version_folders, s)"
| "scan (folder # rest) version_folders s =
     (if isdir_released folder s then
        (case check_version folder of
           Inr _ \<Rightarrow> scan rest (version_folders @ [folder]) s
         | Inl (CheckVersionException _) \<Rightarrow>
             scan rest version_folders
               (s\<lparr>out := out s @ [folder @ '' have unsupported format. Skipping.'']\<rparr>)
         | Inl e \<Rightarrow> (Inl e, s))
      else
        scan rest version_folders
          (s\<lparr>out := out s @ [folder @ '' is not directory. Skipping.'']\<rparr>))"

text \<open>\<^verbatim>\<open>get_version_folders\<close> (lines 56 to 72).\<close>

definition get_version_folders :: "world \<Rightarrow> (error + string list) \<times> world" where
  "get_version_folders s =
     (case released s of
        None \<Rightarrow> (Inl OSError, s)
      | Some es \<Rightarrow>
          (case scan (map fst es) [] s of
             (Inl e, s1) \<Rightarrow> (Inl e, s1)
           | (Inr version_folders, s1) \<Rightarrow>
               (sorted_reverse version_strings_key version_folders, s1)))"

text \<open>
  The loop of \<^verbatim>\<open>get_version_changes\<close> (lines 79 to 84). \<^verbatim>\<open>changes\<close> is a
  dictionary, which keeps its keys in the order of their first insertion.
\<close>

fun collect :: "string list \<Rightarrow> folder \<Rightarrow> (string \<times> string list) list
    \<Rightarrow> error + (string \<times> string list) list" where
  "collect [] d changes = Inr changes"
| "collect (file # files) d changes =
     (case map_of d file of
        None \<Rightarrow> Inl OSError
      | Some Undecodable \<Rightarrow> Inl YAMLError
      | Some Scalar \<Rightarrow> Inl TypeError
      | Some (Mapping entry) \<Rightarrow>
          (case map_of entry ''author'' of
             None \<Rightarrow> Inl (KeyError ''author'')
           | Some author \<Rightarrow>
               (let changes1 = (if map_of changes author = None
                                then changes @ [(author, [])] else changes)
                in (case map_of entry ''title'' of
                      None \<Rightarrow> Inl (KeyError ''title'')
                    | Some title \<Rightarrow>
                        collect files d
                          (AList.map_entry author (\<lambda>lines. lines @ [''- '' @ title @ nl])
                             changes1)))))"

text \<open>\<^verbatim>\<open>get_version_changes\<close> (lines 75 to 85).\<close>

definition get_version_changes :: "string \<Rightarrow> world \<Rightarrow> error + (string \<times> string list) list" where
  "get_version_changes version s =
     (case released s of
        None \<Rightarrow> Inl OSError
      | Some es \<Rightarrow>
          (case map_of es version of
             Some (Folder d) \<Rightarrow> collect (filter is_yml (map fst d)) d []
           | _ \<Rightarrow> Inl OSError))"

text \<open>
  \<^verbatim>\<open>get_release_info\<close> (lines 88 to 93): an absent file gives the empty dictionary,
  a present one whatever the decoder returns.
\<close>

definition get_release_info :: "string \<Rightarrow> world \<Rightarrow> error + content" where
  "get_release_info version s =
     (case released s of
        None \<Rightarrow> Inr (Mapping [])
      | Some es \<Rightarrow>
          (case map_of es version of
             Some (Folder d) \<Rightarrow>
               (case map_of d ''release-info'' of
                  None \<Rightarrow> Inr (Mapping [])
                | Some Undecodable \<Rightarrow> Inl YAMLError
                | Some c \<Rightarrow> Inr c)
           | _ \<Rightarrow> Inr (Mapping [])))"

text \<open>\<^verbatim>\<open>release_info.get('date', '')\<close>; only a dictionary has \<^verbatim>\<open>get\<close>.\<close>

definition get_date :: "content \<Rightarrow> error + string" where
  "get_date release_info =
     (case release_info of
        Mapping m \<Rightarrow> (case map_of m ''date'' of None \<Rightarrow> Inr [] | Some d \<Rightarrow> Inr d)
      | _ \<Rightarrow> Inl AttributeError)"

subsection \<open>Changelog aggregation\<close>

text \<open>The first line of the document (line 98).\<close>

definition header :: string where
  "header =
     ''**Note:** This file is automatically generated. Use changelog_helper to add your own entry''
       @ nl"

definition heading :: "string \<Rightarrow> string \<Rightarrow> string" where
  "heading version date = ''## Version '' @ drop 1 version @ '' ('' @ date @ '')'' @ nl"

definition author_block :: "string \<times> string list \<Rightarrow> string list" where
  "author_block p = (''*@'' @ fst p @ ''*'' @ nl) # snd p"

text \<open>The loop of \<^verbatim>\<open>build_changelog\<close> (lines 100 to 108); it reads and never writes.\<close>

fun sections :: "string list \<Rightarrow> world \<Rightarrow> string list \<Rightarrow> error + string list" where
  "sections [] s result = Inr result"
| "sections (version # versions) s result =
     (case get_release_info version s of
        Inl e \<Rightarrow> Inl e
      | Inr release_info \<Rightarrow>
          (case get_date release_info of
             Inl e \<Rightarrow> Inl e
           | Inr date \<Rightarrow>
               (case get_version_changes version s of
                  Inl e \<Rightarrow> Inl e
                | Inr changes \<Rightarrow>
                    sections versions s
                      (result @ [heading version date] @ concat (map author_block changes)
                         @ [nl]))))"

text \<open>\<^verbatim>\<open>build_changelog\<close> (lines 96 to 114).\<close>

definition build_changelog :: "world \<Rightarrow> (error + string list) \<times> world" where
  "build_changelog s =
     (case get_version_folders s of
        (Inl e, s1) \<Rightarrow> (Inl e, s1)
      | (Inr versions, s1) \<Rightarrow>
          (case sections versions s1 [header, nl] of
             Inl e \<Rightarrow> (Inl e, s1)
           | Inr result \<Rightarrow>
               (Inr (result @ (case archive s1 of None \<Rightarrow> [] | Some ls \<Rightarrow> ls)), s1)))"

subsection \<open>The driver\<close>

text \<open>
  \<^verbatim>\<open>main\<close> (lines 132 to 150), after the arguments are parsed: \<open>rebuild\<close> is the flag
  and \<open>version\<close> the positional argument (\<open>''v''\<close> when it is left out).
  \<^verbatim>\<open>writelines\<close> writes the lines one after the other into the emptied file.
\<close>

definition write_changelog :: "world \<Rightarrow> (error + unit) \<times> world" where
  "write_changelog s =
     (case build_changelog s of
        (Inl e, s1) \<Rightarrow> (Inl e, s1)
      | (Inr changelog, s1) \<Rightarrow> (Inr (), s1\<lparr>changelog_md := Some (concat changelog)\<rparr>))"

definition main :: "bool \<Rightarrow> string \<Rightarrow> world \<Rightarrow> (error + unit) \<times> world" where
  "main rebuild version s =
     (if \<not> rebuild then
        (case check_version version of
           Inl (CheckVersionException msg) \<Rightarrow> (Inl (SystemExit 1), s\<lparr>out := out s @ [msg]\<rparr>)
         | Inl e \<Rightarrow> (Inl e, s)
         | Inr _ \<Rightarrow>
             (case move_unreleased_changelogs version s of
                (Inl e, s1) \<Rightarrow> (Inl e, s1)
              | (Inr _, s1) \<Rightarrow> write_changelog s1))
      else write_changelog s)"

subsection \<open>Validation in the words of the specification\<close>

text \<open>
  The specification's \<open>validate\<close>: the string starts with the marker, what follows
  the marker is not empty, and every part between dots parses as a non-negative
  integer. Parsing is read here with the program's own parser, the reading that accepts
  most.
\<close>

definition validate_spec :: "string \<Rightarrow> bool" where
  "validate_spec s =
     (take 1 s = ''v'' \<and> drop 1 s \<noteq> []
      \<and> list_all (\<lambda>p. case py_int p of Inr n \<Rightarrow> 0 \<le> n | Inl _ \<Rightarrow> False)
           (split CHR ''.'' (drop 1 s)))"

text \<open>
  Version strings of the form \<open><marker><n1>.<n2>\<dots>\<close>: the marker, then numerals
  (non-empty strings of decimal digits) joined by dots. \<open>decimal\<close> is the number a
  numeral denotes.
\<close>

definition decimal :: "string \<Rightarrow> int" where
  "decimal ds = foldl (\<lambda>a c. 10 * a + digit_value c) 0 ds"

definition numeral_string :: "string \<Rightarrow> bool" where
  "numeral_string ds = (ds \<noteq> [] \<and> list_all is_digit ds)"

fun join :: "char \<Rightarrow> string list \<Rightarrow> string" where
  "join sep [] = []"
| "join sep [p] = p"
| "join sep (p # q # ps) = p @ sep # join sep (q # ps)"

text \<open>The listing of the release area; a missing folder lists nothing.\<close>

definition release_area_of :: "world \<Rightarrow> (string \<times> entry) list" where
  "release_area_of s = (case released s of None \<Rightarrow> [] | Some es \<Rightarrow> es)"

text \<open>
  A malformed fragment: a file the decoder rejects, or one that decodes to something
  without an \<open>author\<close> or without a \<open>title\<close>.
\<close>

definition malformed :: "content \<Rightarrow> bool" where
  "malformed c =
     (case c of
        Mapping m \<Rightarrow> map_of m ''author'' = None \<or> map_of m ''title'' = None
      | _ \<Rightarrow> True)"

subsection \<open>States used as concrete inputs\<close>

definition release_area :: "(string \<times> entry) list \<Rightarrow> world" where
  "release_area es =
     \<lparr>unreleased = Some [], released = Some es, archive = None, changelog_md = None,
      today = ''2026-11-04'', git_user = ''ana'', out = []\<rparr>"

definition pending :: world where
  "pending =
     \<lparr>unreleased = Some [(''fix.yml'', Mapping [(''author'', ''ana''), (''title'', ''Fix bug'')]),
                         (''README'', Scalar),
                         (''add.yml'', Mapping [(''author'', ''bo''), (''title'', ''Add feature'')])],
      released = Some [(''v1.0'', Folder [])], archive = None, changelog_md = None,
      today = ''2026-11-04'', git_user = ''ana'', out = []\<rparr>"

section \<open>Properties\<close>

lemmas version_defs =
  check_version_def version_strings_key_def py_int_def strip_def is_space_def unsigned_def
  is_digit_def digit_value_def

subsection \<open>The integer parser raises nothing but \<^verbatim>\<open>ValueError\<close>\<close>

lemma digits_error: "digits cs acc = Inl e \<Longrightarrow> e = ValueError"
  by (induction cs acc rule: digits.induct) (auto split: if_splits list.splits)

lemma unsigned_error: "unsigned s = Inl e \<Longrightarrow> e = ValueError"
  by (auto simp: unsigned_def split: list.splits if_splits dest: digits_error)

lemma py_int_error: "py_int s = Inl e \<Longrightarrow> e = ValueError"
  by (auto simp: py_int_def split: list.splits if_splits sum.splits dest: unsigned_error)

lemma map_int_error: "map_int ps = Inl e \<Longrightarrow> e = ValueError"
  by (induction ps) (auto split: sum.splits dest: py_int_error)

lemma map_int_Inr_iff: "(\<exists>ns. map_int ps = Inr ns) = list_all (\<lambda>p. \<not> isl (py_int p)) ps"
  by (induction ps) (auto split: sum.splits)

lemma map_int_Inr: "map_int ps = Inr ns \<Longrightarrow> ns = map (\<lambda>p. projr (py_int p)) ps"
  by (induction ps arbitrary: ns) (auto split: sum.splits)

text \<open>
  On a string that is not empty, \<^verbatim>\<open>check_version\<close> returns or raises its own
  exception with one of its three messages.
\<close>

lemma check_version_cases:
  "check_version s = Inr ()
   \<or> (s = [] \<and> check_version s = Inl IndexError)
   \<or> check_version s = Inl (CheckVersionException ''Version should start with 'v', like v1.2.19'')
   \<or> check_version s = Inl (CheckVersionException ''You should provide version number, like v1.2.19'')
   \<or> check_version s = Inl (CheckVersionException ''Version can contain only numbers divided by dots, like v1.2.19'')"
  by (auto simp: check_version_def split: list.splits sum.splits error.splits dest: map_int_error)

subsection \<open>Release transition\<close>

lemma exists_released_mem:
  "released s = Some es \<Longrightarrow> (version, e) \<in> set es \<Longrightarrow> exists_released version s"
  by (auto simp: exists_released_def map_of_eq_None_iff image_iff intro: bexI[of _ "(version, e)"])

text \<open>
  C5. When the release area already holds a folder named \<open>version\<close>,
  \<^verbatim>\<open>move_unreleased_changelogs\<close> prints that the changelog of this version exists and
  exits with code 1; nothing but the printed line distinguishes the state it leaves
  from the one it found: no file is moved, no folder created, no release-info written.
\<close>

theorem duplicate_release:
  assumes "released s = Some es" and "(version, Folder d) \<in> set es"
  shows "move_unreleased_changelogs version s =
           (Inl (SystemExit 1),
            s\<lparr>out := out s @ [''Changelog for this version already exists.'']\<rparr>)"
  using exists_released_mem[OF assms] by (simp add: move_unreleased_changelogs_def)

theorem duplicate_release_witness:
  "released (release_area [(''v1.0'', Folder [])]) = Some [(''v1.0'', Folder [])]
   \<and> (''v1.0'', Folder []) \<in> set [(''v1.0'', Folder [])]
   \<and> move_unreleased_changelogs ''v1.0'' (release_area [(''v1.0'', Folder [])]) =
       (Inl (SystemExit 1),
        \<lparr>unreleased = Some [], released = Some [(''v1.0'', Folder [])], archive = None,
         changelog_md = None, today = ''2026-11-04'', git_user = ''ana'',
         out = [''Changelog for this version already exists.'']\<rparr>)"
  using duplicate_release[of "release_area [(''v1.0'', Folder [])]" "[(''v1.0'', Folder [])]"
      "''v1.0''" "[]"]
  by (simp add: release_area_def)

subsection \<open>Version identifiers\<close>

text \<open>
  C8. Validation is meant to reject a string with its own exception and nothing else.
  On the empty string the first line of \<^verbatim>\<open>check_version\<close> indexes position 0 and
  raises \<^verbatim>\<open>IndexError\<close>; the length test that would have caught it comes one line
  later. \<^verbatim>\<open>main\<close> catches \<^verbatim>\<open>CheckVersionException\<close> only, so the run ends in a
  traceback with nothing printed, not in the message and exit code 1.
\<close>

theorem check_version_empty_string:
  "check_version [] = Inl IndexError \<and> main False [] s = (Inl IndexError, s)"
  by (simp add: check_version_def main_def)

text \<open>
  C10. The sort key is not injective on valid names: \<open>v1.2\<close> and \<open>v01.2\<close> are
  different strings, both pass \<^verbatim>\<open>check_version\<close>, and both have the key \<open>(1, 2)\<close>.
  Two such folders come out of \<^verbatim>\<open>get_version_folders\<close> in the order of the
  directory listing, whichever it is: the key does not decide.
\<close>

theorem sort_key_not_injective:
  "''v1.2'' \<noteq> ''v01.2''
   \<and> check_version ''v1.2'' = Inr () \<and> check_version ''v01.2'' = Inr ()
   \<and> version_strings_key ''v1.2'' = Inr [1, 2] \<and> version_strings_key ''v01.2'' = Inr [1, 2]
   \<and> fst (get_version_folders (release_area [(''v1.2'', Folder []), (''v01.2'', Folder [])]))
       = Inr [''v1.2'', ''v01.2'']
   \<and> fst (get_version_folders (release_area [(''v01.2'', Folder []), (''v1.2'', Folder [])]))
       = Inr [''v01.2'', ''v1.2'']"
  by (simp add: version_defs get_version_folders_def release_area_def isdir_released_def
      sorted_reverse_def)

subsection \<open>The released versions, newest first\<close>

lemma scan_all_valid:
  "\<forall>n \<in> set ns. isdir_released n s \<and> check_version n = Inr () \<Longrightarrow>
   scan ns acc s = (Inr (acc @ ns), s)"
  by (induction ns arbitrary: acc) auto

lemma check_version_key:
  "check_version v = Inr () \<Longrightarrow> \<exists>ks. version_strings_key v = Inr ks"
  by (auto simp: check_version_def version_strings_key_def split: list.splits if_splits sum.splits error.splits)

lemma keyed_total:
  "\<forall>x \<in> set xs. \<not> isl (key x) \<Longrightarrow> keyed key xs = Inr (map (\<lambda>x. (projr (key x), x)) xs)"
  by (induction xs) (auto split: sum.splits)

lemma sorted_reverse_total:
  assumes "\<forall>x \<in> set xs. \<not> isl (key x)"
  shows "\<exists>ys. sorted_reverse key xs = Inr ys \<and> mset ys = mset xs
           \<and> sorted (rev (map (\<lambda>x. projr (key x)) ys))"
proof -
  let ?kxs = "map (\<lambda>x. (projr (key x), x)) xs"
  let ?ys = "map snd (rev (sort_key fst (rev ?kxs)))"
  have 1: "sorted_reverse key xs = Inr ?ys"
    by (simp add: sorted_reverse_def keyed_total[OF assms])
  have "mset ?ys = image_mset snd (mset (sort_key fst (rev ?kxs)))" by simp
  also have "\<dots> = image_mset snd (mset ?kxs)" by simp
  also have "\<dots> = mset xs" by (simp add: image_mset.compositionality comp_def)
  finally have 2: "mset ?ys = mset xs" .
  let ?zs = "sort_key fst (rev ?kxs)"
  have h: "map (\<lambda>p. projr (key (snd p))) ?zs = map fst ?zs"
    by (rule map_cong) auto
  have "rev (map (\<lambda>x. projr (key x)) ?ys) = map fst ?zs"
    by (simp add: rev_map o_def h)
  then have 3: "sorted (rev (map (\<lambda>x. projr (key x)) ?ys))"
    by (simp only: sorted_sort_key)
  from 1 2 3 show ?thesis by blast
qed

lemma three_perms:
  assumes "distinct xs" "set xs = {a, b, c}" "a \<noteq> b" "a \<noteq> c" "b \<noteq> c"
  shows "xs \<in> {[a,b,c],[a,c,b],[b,a,c],[b,c,a],[c,a,b],[c,b,a]}"
proof -
  have "length xs = 3" using distinct_card[OF assms(1)] assms by simp
  then obtain x y z where xs: "xs = [x, y, z]"
    by (auto simp: numeral_3_eq_3 length_Suc_conv)
  have mem: "x \<in> {a, b, c}" "y \<in> {a, b, c}" "z \<in> {a, b, c}"
    using assms(2) xs by auto
  have d: "x \<noteq> y" "x \<noteq> z" "y \<noteq> z" using assms(1) xs by auto
  show ?thesis using mem d unfolding xs by (elim insertE emptyE; simp)
qed

lemma sorted_reverse_example:
  assumes "xs \<in> {[''v1.2.0'', ''v1.10.0'', ''v1.2.5''], [''v1.2.0'', ''v1.2.5'', ''v1.10.0''],
                 [''v1.10.0'', ''v1.2.0'', ''v1.2.5''], [''v1.10.0'', ''v1.2.5'', ''v1.2.0''],
                 [''v1.2.5'', ''v1.2.0'', ''v1.10.0''], [''v1.2.5'', ''v1.10.0'', ''v1.2.0'']}"
  shows "sorted_reverse version_strings_key xs = Inr [''v1.10.0'', ''v1.2.5'', ''v1.2.0'']"
  using assms
  by (elim insertE emptyE; simp add: sorted_reverse_def version_defs)

text \<open>
  C1. When every entry of the release area is a folder whose name passes
  \<^verbatim>\<open>check_version\<close>, \<^verbatim>\<open>get_version_folders\<close> returns exactly these names, and their
  keys (the integer tuples) are in descending lexicographic order from the first name
  to the last. Whatever the order in which the directory lists \<open>v1.2.0\<close>, \<open>v1.10.0\<close>
  and \<open>v1.2.5\<close>, the result is \<open>v1.10.0\<close>, \<open>v1.2.5\<close>, \<open>v1.2.0\<close>, which is not
  their order as strings.
\<close>

theorem get_version_folders_sorted:
  assumes "released s = Some es"
    and "\<forall>n \<in> set (map fst es). isdir_released n s \<and> check_version n = Inr ()"
  shows "\<exists>vs ks. get_version_folders s = (Inr vs, s)
           \<and> mset vs = mset (map fst es)
           \<and> map version_strings_key vs = map Inr ks \<and> sorted (rev ks)
           \<and> (distinct (map fst es) \<and> set (map fst es) = {''v1.2.0'', ''v1.10.0'', ''v1.2.5''}
                \<longrightarrow> vs = [''v1.10.0'', ''v1.2.5'', ''v1.2.0''])"
proof -
  let ?ns = "map fst es"
  have valid: "\<forall>x \<in> set ?ns. \<not> isl (version_strings_key x)"
    using assms(2) check_version_key by fastforce
  from sorted_reverse_total[OF valid] obtain vs where
    vs: "sorted_reverse version_strings_key ?ns = Inr vs" "mset vs = mset ?ns"
      "sorted (rev (map (\<lambda>x. projr (version_strings_key x)) vs))"
    by blast
  have run: "get_version_folders s = (Inr vs, s)"
    using scan_all_valid[OF assms(2), of "[]"] vs(1)
    by (simp add: get_version_folders_def assms(1))
  have "set vs = set ?ns" using vs(2) by (rule mset_eq_setD)
  with valid have "\<forall>x \<in> set vs. \<not> isl (version_strings_key x)" by simp
  then have keys: "map version_strings_key vs = map Inr (map (\<lambda>x. projr (version_strings_key x)) vs)"
    by (simp add: isl_def)
  have ex: "vs = [''v1.10.0'', ''v1.2.5'', ''v1.2.0'']"
    if "distinct ?ns" "set ?ns = {''v1.2.0'', ''v1.10.0'', ''v1.2.5''}"
  proof -
    have "?ns \<in> {[''v1.2.0'', ''v1.10.0'', ''v1.2.5''], [''v1.2.0'', ''v1.2.5'', ''v1.10.0''],
                 [''v1.10.0'', ''v1.2.0'', ''v1.2.5''], [''v1.10.0'', ''v1.2.5'', ''v1.2.0''],
                 [''v1.2.5'', ''v1.2.0'', ''v1.10.0''], [''v1.2.5'', ''v1.10.0'', ''v1.2.0'']}"
      by (rule three_perms[OF that]) simp_all
    from sorted_reverse_example[OF this] vs(1) show ?thesis by simp
  qed
  from run vs(2) keys vs(3) ex show ?thesis by blast
qed

theorem get_version_folders_sorted_witness:
  "get_version_folders
     (release_area [(''v1.2.0'', Folder []), (''v1.10.0'', Folder []), (''v1.2.5'', Folder [])])
   = (Inr [''v1.10.0'', ''v1.2.5'', ''v1.2.0''],
      release_area [(''v1.2.0'', Folder []), (''v1.10.0'', Folder []), (''v1.2.5'', Folder [])])"
proof -
  let ?es = "[(''v1.2.0'', Folder []), (''v1.10.0'', Folder []), (''v1.2.5'', Folder [])]"
  have 1: "released (release_area ?es) = Some ?es" by (simp add: release_area_def)
  have 2: "\<forall>n \<in> set (map fst ?es). isdir_released n (release_area ?es) \<and> check_version n = Inr ()"
    by (simp add: release_area_def isdir_released_def version_defs)
  from get_version_folders_sorted[OF 1 2] show ?thesis by auto
qed

subsection \<open>What validation accepts\<close>

lemma split_not_Nil: "split sep s \<noteq> []"
  by (induction s) (auto split: list.splits)

lemma split_no_sep: "sep \<notin> set p \<Longrightarrow> split sep p = [p]"
  by (induction p) auto

lemma split_append_sep: "sep \<notin> set p \<Longrightarrow> split sep (p @ sep # rest) = p # split sep rest"
  by (induction p) (auto split: list.splits)

lemma split_join:
  "ps \<noteq> [] \<Longrightarrow> \<forall>p \<in> set ps. sep \<notin> set p \<Longrightarrow> split sep (join sep ps) = ps"
  by (induction sep ps rule: join.induct) (auto simp: split_no_sep split_append_sep)

lemma digits_all: "list_all is_digit cs \<Longrightarrow> digits cs acc = Inr (foldl (\<lambda>a c. 10 * a + digit_value c) acc cs)"
  by (induction cs arbitrary: acc) auto

lemma digit_not_space: "is_digit c \<Longrightarrow> \<not> is_space c"
  by (auto simp: is_digit_def is_space_def)

lemma strip_numeral: "numeral_string p \<Longrightarrow> strip p = p"
proof -
  assume a: "numeral_string p"
  then have 1: "dropWhile is_space p = p"
    by (cases p) (auto simp: numeral_string_def digit_not_space)
  from a have "p \<noteq> []" "is_digit (last p)"
     by (auto simp: numeral_string_def list_all_iff)
  then have "dropWhile is_space (rev p) = rev p"
    by (cases "rev p") (auto simp: digit_not_space last_rev[symmetric] simp del: last_rev)
  with 1 show ?thesis by (simp add: strip_def)
qed

lemma py_int_numeral: "numeral_string p \<Longrightarrow> py_int p = Inr (decimal p)"
proof -
  assume a: "numeral_string p"
  then obtain c cs where p: "p = c # cs" "is_digit c" "list_all is_digit cs"
    by (cases p) (auto simp: numeral_string_def)
  have "c \<noteq> CHR ''-''" "c \<noteq> CHR ''+''" using p(2) by (auto simp: is_digit_def)
  then show ?thesis
    using strip_numeral[OF a] p by (simp add: py_int_def unsigned_def digits_all decimal_def)
qed

lemma map_int_numerals: "list_all numeral_string ps \<Longrightarrow> map_int ps = Inr (map decimal ps)"
  by (induction ps) (auto simp: py_int_numeral)

lemma numeral_no_dot: "numeral_string p \<Longrightarrow> CHR ''.'' \<notin> set p"
  by (auto simp: numeral_string_def list_all_iff is_digit_def)

lemma join_not_Nil: "ps \<noteq> [] \<Longrightarrow> list_all numeral_string ps \<Longrightarrow> join sep ps \<noteq> []"
  by (induction sep ps rule: join.induct) (auto simp: numeral_string_def)

lemma check_version_iff:
  "(check_version s = Inr ()) =
     (take 1 s = ''v'' \<and> drop 1 s \<noteq> []
      \<and> list_all (\<lambda>p. \<not> isl (py_int p)) (split CHR ''.'' (drop 1 s)))"
proof (cases s)
  case Nil
  then show ?thesis by (simp add: check_version_def)
next
  case (Cons c cs)
  show ?thesis
  proof (cases "map_int (split CHR ''.'' cs)")
    case (Inl e)
    then have e: "e = ValueError" by (rule map_int_error)
    have "\<not> list_all (\<lambda>p. \<not> isl (py_int p)) (split CHR ''.'' cs)"
      using Inl map_int_Inr_iff[of "split CHR ''.'' cs"] by simp
    then show ?thesis using Inl e by (simp add: Cons check_version_def)
  next
    case (Inr ns)
    then have "list_all (\<lambda>p. \<not> isl (py_int p)) (split CHR ''.'' cs)"
      using map_int_Inr_iff[of "split CHR ''.'' cs"] by blast
    then show ?thesis using Inr by (cases cs) (simp_all add: Cons check_version_def)
  qed
qed


text \<open>
  C2, as the code has it. \<^verbatim>\<open>check_version\<close> succeeds exactly on the strings that
  start with \<open>v\<close>, have something after it, and whose parts between dots are all
  accepted by \<^verbatim>\<open>int\<close>; the parser takes a sign, surrounding whitespace and single
  underscores between digits, so a part may denote a negative integer. On every string
  that validates, \<^verbatim>\<open>version_strings_key\<close> is the tuple of the parsed integers in
  order. Every \<open>v\<close> followed by numerals joined by dots validates, and its key is the
  tuple of the numbers the numerals denote.
\<close>

theorem check_version_accepts:
  "((check_version s = Inr ()) =
      (take 1 s = ''v'' \<and> drop 1 s \<noteq> []
       \<and> list_all (\<lambda>p. \<not> isl (py_int p)) (split CHR ''.'' (drop 1 s))))
   \<and> (check_version s = Inr () \<longrightarrow>
        version_strings_key s = Inr (map (\<lambda>p. projr (py_int p)) (split CHR ''.'' (drop 1 s))))
   \<and> (ps \<noteq> [] \<and> list_all numeral_string ps \<longrightarrow>
        check_version (CHR ''v'' # join CHR ''.'' ps) = Inr ()
        \<and> version_strings_key (CHR ''v'' # join CHR ''.'' ps) = Inr (map decimal ps))"
proof (intro conjI impI)
  show "(check_version s = Inr ()) =
      (take 1 s = ''v'' \<and> drop 1 s \<noteq> []
       \<and> list_all (\<lambda>p. \<not> isl (py_int p)) (split CHR ''.'' (drop 1 s)))"
    by (rule check_version_iff)
next
  assume "check_version s = Inr ()"
  then obtain ks where ks: "version_strings_key s = Inr ks"
    using check_version_key by blast
  then have "ks = map (\<lambda>p. projr (py_int p)) (split CHR ''.'' (drop 1 s))"
    unfolding version_strings_key_def by (rule map_int_Inr)
  with ks show "version_strings_key s = Inr (map (\<lambda>p. projr (py_int p)) (split CHR ''.'' (drop 1 s)))"
    by simp
next
  assume a: "ps \<noteq> [] \<and> list_all numeral_string ps"
  then have sp: "split CHR ''.'' (join CHR ''.'' ps) = ps"
    by (intro split_join) (auto simp: list_all_iff numeral_no_dot)
  from a have ne: "join CHR ''.'' ps \<noteq> []" by (simp add: join_not_Nil)
  show "version_strings_key (CHR ''v'' # join CHR ''.'' ps) = Inr (map decimal ps)"
    using a by (simp add: version_strings_key_def sp map_int_numerals)
  show "check_version (CHR ''v'' # join CHR ''.'' ps) = Inr ()"
    unfolding check_version_iff using a ne by (simp add: sp list_all_iff py_int_numeral)
qed

theorem check_version_accepts_witness:
  "check_version ''v1.2.19'' = Inr () \<and> version_strings_key ''v1.2.19'' = Inr [1, 2, 19]
   \<and> take 1 ''v1.2.19'' = ''v''"
  using check_version_accepts[of "''v1.2.19''" "[''1'', ''2'', ''19'']"]
  by (simp add: numeral_string_def is_digit_def decimal_def digit_value_def)

text \<open>
  C2, as the specification states it, fails on \<open>v-1\<close>: the string validates, its
  key is \<open>(-1)\<close>, and its one part does not parse as a non-negative integer.
\<close>

theorem check_version_negative_component:
  "check_version ''v-1'' = Inr () \<and> version_strings_key ''v-1'' = Inr [- 1]
   \<and> \<not> validate_spec ''v-1''"
  by (simp add: version_defs validate_spec_def)

subsection \<open>Moving the unreleased fragments\<close>

lemma update_absent: "map_of al k = None \<Longrightarrow> AList.update k v al = al @ [(k, v)]"
  by (induction al) (auto split: if_splits)

lemma update_last_entry:
  "map_of al k = None \<Longrightarrow> AList.update k v (al @ [(k, w)]) = al @ [(k, v)]"
  by (induction al) (auto split: if_splits)

lemma map_of_last_entry: "map_of al k = None \<Longrightarrow> map_of (al @ [(k, w)]) k = Some w"
  by (simp add: map_add_def)

lemma the_map_of_distinct:
  "distinct (map fst al) \<Longrightarrow> p \<in> set al \<Longrightarrow> the (map_of al (fst p)) = snd p"
  by (cases p) simp

lemma move_all_fresh:
  assumes "map_of es0 version = None"
  shows "unreleased t = Some us \<Longrightarrow> released t = Some (es0 @ [(version, Folder d)]) \<Longrightarrow>
     distinct ns \<Longrightarrow> set ns \<subseteq> fst ` set us \<Longrightarrow> set ns \<inter> fst ` set d = {} \<Longrightarrow>
     move_all ns version t =
       (Inr (), t\<lparr>unreleased := Some (filter (\<lambda>p. fst p \<notin> set ns) us),
                  released := Some (es0 @ [(version, Folder (d @ map (\<lambda>n. (n, the (map_of us n))) ns))])\<rparr>)"
proof (induction ns arbitrary: t us d)
  case Nil
  then show ?case by simp
next
  case (Cons n ns)
  from Cons.prems obtain c where c: "map_of us n = Some c"
    by (cases "map_of us n") (auto simp: map_of_eq_None_iff)
  have dn: "map_of d n = None" using Cons.prems by (auto simp: map_of_eq_None_iff)
  let ?t' = "t\<lparr>unreleased := Some (AList.delete n us),
                released := Some (es0 @ [(version, Folder (d @ [(n, c)]))])\<rparr>"
  have step: "move n version t = (Inr (), ?t')"
    using Cons.prems(1,2) c dn assms
    by (simp add: move_def map_of_last_entry update_last_entry del: map_of_append)
  have ih: "move_all ns version ?t' =
       (Inr (), ?t'\<lparr>unreleased := Some (filter (\<lambda>p. fst p \<notin> set ns) (AList.delete n us)),
                  released := Some (es0 @ [(version, Folder ((d @ [(n, c)]) @ map (\<lambda>m. (m, the (map_of (AList.delete n us) m))) ns))])\<rparr>)"
  proof (rule Cons.IH)
    show "set ns \<subseteq> fst ` set (AList.delete n us)"
    proof
      fix m assume m: "m \<in> set ns"
      then have "m \<noteq> n" "m \<in> fst ` set us" using Cons.prems(3,4) by auto
      then show "m \<in> fst ` set (AList.delete n us)"
        by (force simp: AList.delete_eq)
    qed
    show "set ns \<inter> fst ` set (d @ [(n, c)]) = {}"
      using Cons.prems(3,5) by auto
  qed (use Cons.prems in simp_all)
  have m: "map (\<lambda>m. (m, the (map_of (AList.delete n us) m))) ns = map (\<lambda>m. (m, the (map_of us m))) ns"
  proof (rule map_cong[OF refl])
    fix m assume "m \<in> set ns"
    then have "m \<noteq> n" using Cons.prems(3) by auto
    then show "(m, the (map_of (AList.delete n us) m)) = (m, the (map_of us m))" by simp
  qed
  have f: "filter (\<lambda>p. fst p \<notin> set ns) (AList.delete n us) = filter (\<lambda>p. fst p \<notin> set (n # ns)) us"
    by (auto simp: AList.delete_eq intro: filter_cong)
  show ?case
    by (simp add: step ih m f c)
qed

lemma makedirs_fresh:
  "\<not> exists_released version s \<Longrightarrow>
   makedirs version s = (Inr (), s\<lparr>released := Some (release_area_of s @ [(version, Folder [])])\<rparr>)"
  by (auto simp: makedirs_def exists_released_def release_area_of_def split: option.splits)

lemma fresh_not_listed:
  "\<not> exists_released version s \<Longrightarrow> map_of (release_area_of s) version = None"
  by (auto simp: exists_released_def release_area_of_def split: option.splits)

lemma release_info_not_yml: "\<not> is_yml ''release-info''"
  by (simp add: is_yml_def)

lemma write_release_info_fresh:
  assumes "map_of es0 version = None" and "released t = Some (es0 @ [(version, Folder d)])"
    and "map_of d ''release-info'' = None"
  shows "write_release_info version t =
     (Inr (), t\<lparr>released := Some (es0 @ [(version, Folder (d @ [(''release-info'',
         Mapping [(''date'', today t), (''released_by'', git_user t)])]))])\<rparr>)"
  using assms
  by (simp add: write_release_info_def map_of_last_entry update_last_entry update_absent
      del: map_of_append)

text \<open>
  C3. From a state with no entry named \<open>version\<close> in the release area and at least
  one \<^verbatim>\<open>.yml\<close> file in the unreleased folder (which lists each name once),
  \<^verbatim>\<open>move_unreleased_changelogs\<close> returns normally. It leaves in the unreleased
  folder the entries that are not fragment files, and the release area has one new
  folder, \<open>version\<close>, holding the fragment files with their contents followed by a
  \<^verbatim>\<open>release-info\<close> whose \<open>date\<close> is today's date and whose \<open>released_by\<close> is the
  configured user name. Nothing else changes.
\<close>

theorem release_moves_fragments:
  assumes "\<not> exists_released version s" and "unreleased s = Some fs"
    and "distinct (map fst fs)" and "\<exists>f \<in> set (map fst fs). is_yml f"
  shows "move_unreleased_changelogs version s =
     (Inr (),
      s\<lparr>unreleased := Some (filter (\<lambda>p. \<not> is_yml (fst p)) fs),
        released := Some (release_area_of s @
          [(version, Folder (filter (\<lambda>p. is_yml (fst p)) fs @
             [(''release-info'', Mapping [(''date'', today s), (''released_by'', git_user s)])]))])\<rparr>)"
proof -
  let ?es0 = "release_area_of s"
  let ?ns = "filter is_yml (map fst fs)"
  let ?s1 = "s\<lparr>released := Some (?es0 @ [(version, Folder [])])\<rparr>"
  let ?d = "filter (\<lambda>p. is_yml (fst p)) fs"
  have fresh: "map_of ?es0 version = None" by (rule fresh_not_listed[OF assms(1)])
  have ne: "?ns \<noteq> []" using assms(4) by (auto simp: filter_empty_conv)
  have moved: "map (\<lambda>n. (n, the (map_of fs n))) ?ns = ?d"
  proof -
    have "map (\<lambda>n. (n, the (map_of fs n))) ?ns = map (\<lambda>p. (fst p, the (map_of fs (fst p)))) ?d"
      by (simp add: filter_map o_def)
    also have "\<dots> = map (\<lambda>p. p) ?d"
      by (rule map_cong[OF refl]) (simp add: the_map_of_distinct[OF assms(3)])
    finally show ?thesis by simp
  qed
  have kept: "filter (\<lambda>p. fst p \<notin> set ?ns) fs = filter (\<lambda>p. \<not> is_yml (fst p)) fs"
    by (rule filter_cong[OF refl]) auto
  have loop: "move_all ?ns version ?s1 =
       (Inr (), ?s1\<lparr>unreleased := Some (filter (\<lambda>p. fst p \<notin> set ?ns) fs),
                  released := Some (?es0 @ [(version, Folder ([] @ map (\<lambda>n. (n, the (map_of fs n))) ?ns))])\<rparr>)"
    by (rule move_all_fresh[OF fresh]) (use assms(2,3) in \<open>auto simp: distinct_map_filter\<close>)
  let ?s2 = "s\<lparr>unreleased := Some (filter (\<lambda>p. \<not> is_yml (fst p)) fs),
                released := Some (?es0 @ [(version, Folder ?d)])\<rparr>"
  have loop': "move_all ?ns version ?s1 = (Inr (), ?s2)"
    using loop unfolding moved kept by simp
  have "map_of ?d ''release-info'' = None"
    using release_info_not_yml by (auto simp: map_of_eq_None_iff)
  then have info: "write_release_info version ?s2 =
     (Inr (), ?s2\<lparr>released := Some (?es0 @ [(version, Folder (?d @ [(''release-info'',
         Mapping [(''date'', today ?s2), (''released_by'', git_user ?s2)])]))])\<rparr>)"
    by (intro write_release_info_fresh[OF fresh]) simp_all
  show ?thesis
    using assms(1,2) ne
    by (simp add: move_unreleased_changelogs_def makedirs_fresh loop' info)
qed

text \<open>
  C4, as the code has it. From a state with no entry named \<open>version\<close> in the release
  area, whose unreleased folder exists and holds no \<^verbatim>\<open>.yml\<close> file,
  \<^verbatim>\<open>move_unreleased_changelogs\<close> prints that there are no unreleased changes and exits
  with code 1. It has created the version folder by then, and the folder is empty: it
  holds no fragment file and no \<^verbatim>\<open>release-info\<close>. From a state whose release area
  has an entry named \<open>version\<close>, folder or file, it prints that the changelog of this
  version exists and exits with code 1, whatever the unreleased folder holds, and
  changes nothing else.
\<close>

theorem no_pending_changes:
  "(\<not> exists_released version s \<and> unreleased s = Some fs
      \<and> (\<forall>f \<in> set (map fst fs). \<not> is_yml f) \<longrightarrow>
      move_unreleased_changelogs version s =
        (Inl (SystemExit 1),
         s\<lparr>released := Some (release_area_of s @ [(version, Folder [])]),
           out := out s @ [''There is no unreleased changes.'']\<rparr>))
   \<and> (released s = Some es \<and> map_of es version = Some e \<longrightarrow>
      move_unreleased_changelogs version s =
        (Inl (SystemExit 1),
         s\<lparr>out := out s @ [''Changelog for this version already exists.'']\<rparr>))"
proof (intro conjI impI)
  assume a: "\<not> exists_released version s \<and> unreleased s = Some fs
      \<and> (\<forall>f \<in> set (map fst fs). \<not> is_yml f)"
  then have "filter is_yml (map fst fs) = []" by (simp add: filter_empty_conv)
  then show "move_unreleased_changelogs version s =
        (Inl (SystemExit 1),
         s\<lparr>released := Some (release_area_of s @ [(version, Folder [])]),
           out := out s @ [''There is no unreleased changes.'']\<rparr>)"
    using a by (simp add: move_unreleased_changelogs_def makedirs_fresh)
next
  assume "released s = Some es \<and> map_of es version = Some e"
  then have "exists_released version s" by (simp add: exists_released_def)
  then show "move_unreleased_changelogs version s =
        (Inl (SystemExit 1),
         s\<lparr>out := out s @ [''Changelog for this version already exists.'']\<rparr>)"
    by (simp add: move_unreleased_changelogs_def)
qed

theorem release_moves_fragments_witness:
  "move_unreleased_changelogs ''v2.0.0'' pending =
     (Inr (),
      \<lparr>unreleased = Some [(''README'', Scalar)],
       released = Some [(''v1.0'', Folder []),
         (''v2.0.0'', Folder
            [(''fix.yml'', Mapping [(''author'', ''ana''), (''title'', ''Fix bug'')]),
             (''add.yml'', Mapping [(''author'', ''bo''), (''title'', ''Add feature'')]),
             (''release-info'', Mapping [(''date'', ''2026-11-04''), (''released_by'', ''ana'')])])],
       archive = None, changelog_md = None, today = ''2026-11-04'', git_user = ''ana'',
       out = []\<rparr>)"
proof -
  let ?fs = "[(''fix.yml'', Mapping [(''author'', ''ana''), (''title'', ''Fix bug'')]),
              (''README'', Scalar),
              (''add.yml'', Mapping [(''author'', ''bo''), (''title'', ''Add feature'')])]"
  have 1: "\<not> exists_released ''v2.0.0'' pending"
    by (simp add: pending_def exists_released_def)
  have 2: "unreleased pending = Some ?fs" by (simp add: pending_def)
  have 3: "distinct (map fst ?fs)" by simp
  have 4: "\<exists>f \<in> set (map fst ?fs). is_yml f" by (simp add: is_yml_def)
  from release_moves_fragments[OF 1 2 3 4] show ?thesis
    by (simp add: pending_def release_area_of_def is_yml_def)
qed

theorem no_pending_changes_witness:
  "move_unreleased_changelogs ''v2.0.0'' (pending\<lparr>unreleased := Some [(''README'', Scalar)]\<rparr>) =
     (Inl (SystemExit 1),
      \<lparr>unreleased = Some [(''README'', Scalar)],
       released = Some [(''v1.0'', Folder []), (''v2.0.0'', Folder [])],
       archive = None, changelog_md = None, today = ''2026-11-04'', git_user = ''ana'',
       out = [''There is no unreleased changes.'']\<rparr>)
   \<and> move_unreleased_changelogs ''v1.0'' pending =
     (Inl (SystemExit 1),
      pending\<lparr>out := [''Changelog for this version already exists.'']\<rparr>)"
proof -
  let ?s = "pending\<lparr>unreleased := Some [(''README'', Scalar)]\<rparr>"
  have 1: "\<not> exists_released ''v2.0.0'' ?s \<and> unreleased ?s = Some [(''README'', Scalar)]
      \<and> (\<forall>f \<in> set (map fst [(''README'', Scalar)]). \<not> is_yml f)"
    by (simp add: pending_def exists_released_def is_yml_def)
  have 2: "released pending = Some [(''v1.0'', Folder [])]
      \<and> map_of [(''v1.0'', Folder [])] ''v1.0'' = Some (Folder [])"
    by (simp add: pending_def)
  from no_pending_changes[of "''v2.0.0''" ?s "[(''README'', Scalar)]"] 1
  have a: "move_unreleased_changelogs ''v2.0.0'' ?s =
        (Inl (SystemExit 1),
         ?s\<lparr>released := Some (release_area_of ?s @ [(''v2.0.0'', Folder [])]),
           out := out ?s @ [''There is no unreleased changes.'']\<rparr>)"
    by blast
  from no_pending_changes[of "''v1.0''" pending _ "[(''v1.0'', Folder [])]" "Folder []"] 2
  have b: "move_unreleased_changelogs ''v1.0'' pending =
        (Inl (SystemExit 1),
         pending\<lparr>out := out pending @ [''Changelog for this version already exists.'']\<rparr>)"
    by blast
  from a b show ?thesis by (simp add: pending_def release_area_of_def)
qed

text \<open>
  C4, stated for every state without fragment files, fails where the version folder
  exists already: the existence test comes first, and the run ends with the message of
  a duplicate release, not with the message of a release without changes.
\<close>

theorem no_pending_changes_after_duplicate:
  "unreleased (release_area [(''v1.0'', Folder [])]) = Some []
   \<and> fst (move_unreleased_changelogs ''v1.0'' (release_area [(''v1.0'', Folder [])]))
       = Inl (SystemExit 1)
   \<and> out (snd (move_unreleased_changelogs ''v1.0'' (release_area [(''v1.0'', Folder [])])))
       = [''Changelog for this version already exists.'']
   \<and> out (snd (move_unreleased_changelogs ''v1.0'' (release_area [(''v1.0'', Folder [])])))
       \<noteq> [''There is no unreleased changes.'']"
  by (simp add: move_unreleased_changelogs_def release_area_def exists_released_def)

subsection \<open>Aggregation reads and prints, and nothing else\<close>

lemma isdir_released_out [simp]: "isdir_released n (s\<lparr>out := ls\<rparr>) = isdir_released n s"
  by (simp add: isdir_released_def)

lemma get_release_info_out [simp]: "get_release_info v (s\<lparr>out := ls\<rparr>) = get_release_info v s"
  by (simp add: get_release_info_def)

lemma get_version_changes_out [simp]:
  "get_version_changes v (s\<lparr>out := ls\<rparr>) = get_version_changes v s"
  by (simp add: get_version_changes_def)

lemma sections_out [simp]: "sections vs (s\<lparr>out := ls\<rparr>) r = sections vs s r"
  by (induction vs arbitrary: r) (simp_all split: sum.splits)

lemma scan_frame: "snd (scan ns acc s) = s\<lparr>out := out (snd (scan ns acc s))\<rparr>"
proof (induction ns arbitrary: acc s)
  case Nil
  show ?case by simp
next
  case (Cons n ns)
  note ih = Cons.IH
  show ?case
  proof (cases "isdir_released n s")
    case False
    let ?t = "s\<lparr>out := out s @ [n @ '' is not directory. Skipping.'']\<rparr>"
    have "snd (scan ns acc ?t) = ?t\<lparr>out := out (snd (scan ns acc ?t))\<rparr>" by (rule ih)
    then show ?thesis using False by simp
  next
    case True
    show ?thesis
    proof (cases "check_version n")
      case (Inr u)
      with True show ?thesis using ih[of "acc @ [n]" s] by simp
    next
      case (Inl e)
      let ?t = "s\<lparr>out := out s @ [n @ '' have unsupported format. Skipping.'']\<rparr>"
      have "snd (scan ns acc ?t) = ?t\<lparr>out := out (snd (scan ns acc ?t))\<rparr>" by (rule ih)
      then show ?thesis using True Inl by (cases e) simp_all
    qed
  qed
qed

lemma scan_out: "fst (scan ns acc (s\<lparr>out := ls\<rparr>)) = fst (scan ns acc s)"
proof (induction ns arbitrary: acc s ls)
  case Nil
  show ?case by simp
next
  case (Cons n ns)
  have ih: "fst (scan ns acc' (s\<lparr>out := ls'\<rparr>)) = fst (scan ns acc' s)" for acc' ls'
    by (rule Cons.IH)
  show ?case
  proof (cases "isdir_released n s")
    case False
    then show ?thesis by (simp add: ih)
  next
    case True
    show ?thesis
    proof (cases "check_version n")
      case (Inr u)
      with True show ?thesis by (simp add: ih)
    next
      case (Inl e)
      with True show ?thesis by (cases e) (simp_all add: ih)
    qed
  qed
qed

lemma get_version_folders_frame:
  "snd (get_version_folders s) = s\<lparr>out := out (snd (get_version_folders s))\<rparr>"
proof (cases "released s")
  case None
  then show ?thesis by (simp add: get_version_folders_def)
next
  case (Some es)
  obtain r t where rt: "scan (map fst es) [] s = (r, t)" by (cases "scan (map fst es) [] s")
  have "t = s\<lparr>out := out t\<rparr>" using scan_frame[of "map fst es" "[]" s] rt by simp
  then show ?thesis using Some rt by (cases r) (simp_all add: get_version_folders_def)
qed

lemma get_version_folders_out:
  "fst (get_version_folders (s\<lparr>out := ls\<rparr>)) = fst (get_version_folders s)"
proof (cases "released s")
  case None
  then show ?thesis by (simp add: get_version_folders_def)
next
  case (Some es)
  obtain r t where rt: "scan (map fst es) [] s = (r, t)" by (cases "scan (map fst es) [] s")
  obtain r' t' where rt': "scan (map fst es) [] (s\<lparr>out := ls\<rparr>) = (r', t')"
    by (cases "scan (map fst es) [] (s\<lparr>out := ls\<rparr>)")
  have "r' = r" using scan_out[where ns="map fst es" and acc="[]" and s=s and ls=ls] rt rt' by simp
  then show ?thesis using Some rt rt' by (cases r) (simp_all add: get_version_folders_def)
qed

lemma build_changelog_frame:
  "snd (build_changelog s) = s\<lparr>out := out (snd (build_changelog s))\<rparr>"
proof -
  obtain r t where rt: "get_version_folders s = (r, t)" by (cases "get_version_folders s")
  have t: "t = s\<lparr>out := out t\<rparr>" using get_version_folders_frame[of s] rt by simp
  have "snd (build_changelog s) = t"
    using rt by (simp add: build_changelog_def split: sum.splits)
  with t show ?thesis by simp
qed

lemma build_changelog_out:
  "fst (build_changelog (s\<lparr>out := ls\<rparr>)) = fst (build_changelog s)"
proof -
  obtain r t where rt: "get_version_folders s = (r, t)" by (cases "get_version_folders s")
  obtain r' t' where rt': "get_version_folders (s\<lparr>out := ls\<rparr>) = (r', t')"
    by (cases "get_version_folders (s\<lparr>out := ls\<rparr>)")
  have r: "r' = r" using get_version_folders_out[where s=s and ls=ls] rt rt' by simp
  have t: "t = s\<lparr>out := out t\<rparr>" using get_version_folders_frame[of s] rt by simp
  have t': "t' = s\<lparr>out := out t'\<rparr>"
    using get_version_folders_frame[of "s\<lparr>out := ls\<rparr>"] rt' by simp
  have sec: "sections vs t' r0 = sections vs t r0" for vs r0
    by (subst t', subst t) simp
  have arch: "archive t' = archive t" by (subst t', subst t) simp
  show ?thesis
    using rt rt' r by (simp add: build_changelog_def sec arch split: sum.splits)
qed

text \<open>
  C6. \<^verbatim>\<open>build_changelog\<close> leaves the state as it found it except for the lines it
  prints, and what it returns does not depend on the lines printed before. So a second
  call, made in the state the first one left, returns what the first returned: the same
  sequence of lines, or the same exception. The order in which a folder lists its
  entries is part of the storage state.
\<close>

theorem build_changelog_idempotent:
  "fst (build_changelog (snd (build_changelog s))) = fst (build_changelog s)
   \<and> snd (build_changelog s) = s\<lparr>out := out (snd (build_changelog s))\<rparr>
   \<and> fst (build_changelog (s\<lparr>out := ls\<rparr>)) = fst (build_changelog s)"
proof -
  have f: "snd (build_changelog s) = s\<lparr>out := out (snd (build_changelog s))\<rparr>"
    by (rule build_changelog_frame)
  have "fst (build_changelog (snd (build_changelog s)))
        = fst (build_changelog (s\<lparr>out := out (snd (build_changelog s))\<rparr>))"
    by (subst f) (rule refl)
  also have "\<dots> = fst (build_changelog s)" by (rule build_changelog_out)
  finally show ?thesis using f build_changelog_out[where s=s and ls=ls] by blast
qed

subsection \<open>The sections of the document\<close>

lemma map_of_Some_key: "map_of al k = Some v \<Longrightarrow> k \<in> set (map fst al)"
  by (induction al) (auto split: if_splits)

lemma scan_keeps:
  "scan ns acc s = (Inr vs, t) \<Longrightarrow>
   v \<in> set acc \<or> (v \<in> set ns \<and> isdir_released v s \<and> check_version v = Inr ()) \<Longrightarrow>
   v \<in> set vs"
proof (induction ns arbitrary: acc s)
  case Nil
  then show ?case by simp
next
  case (Cons n ns)
  show ?case
  proof (cases "isdir_released n s")
    case False
    let ?s' = "s\<lparr>out := out s @ [n @ '' is not directory. Skipping.'']\<rparr>"
    from Cons.prems(1) False have run: "scan ns acc ?s' = (Inr vs, t)" by simp
    from Cons.prems(2) False
    have "v \<in> set acc \<or> (v \<in> set ns \<and> isdir_released v ?s' \<and> check_version v = Inr ())"
      by auto
    with run show ?thesis by (rule Cons.IH)
  next
    case True
    show ?thesis
    proof (cases "check_version n")
      case (Inr u)
      from Cons.prems(1) True Inr have run: "scan ns (acc @ [n]) s = (Inr vs, t)" by simp
      from Cons.prems(2)
      have "v \<in> set (acc @ [n]) \<or> (v \<in> set ns \<and> isdir_released v s \<and> check_version v = Inr ())"
        by auto
      with run show ?thesis by (rule Cons.IH)
    next
      case (Inl e)
      let ?s' = "s\<lparr>out := out s @ [n @ '' have unsupported format. Skipping.'']\<rparr>"
      from Cons.prems(1) True Inl have run: "scan ns acc ?s' = (Inr vs, t)"
        by (cases e) simp_all
      from Cons.prems(2) Inl
      have "v \<in> set acc \<or> (v \<in> set ns \<and> isdir_released v ?s' \<and> check_version v = Inr ())"
        by auto
      with run show ?thesis by (rule Cons.IH)
    qed
  qed
qed

lemma keyed_snd: "keyed key xs = Inr kxs \<Longrightarrow> map snd kxs = xs"
  by (induction xs arbitrary: kxs) (auto split: sum.splits)

lemma sorted_reverse_set: "sorted_reverse key xs = Inr ys \<Longrightarrow> set ys = set xs"
proof -
  assume a: "sorted_reverse key xs = Inr ys"
  then obtain kxs where k: "keyed key xs = Inr kxs" "ys = map snd (rev (sort_key fst (rev kxs)))"
    by (auto simp: sorted_reverse_def split: sum.splits)
  have "set ys = snd ` set kxs" using k(2) by simp
  also have "\<dots> = set (map snd kxs)" by simp
  finally show ?thesis using keyed_snd[OF k(1)] by simp
qed

lemma get_version_folders_lists:
  assumes "get_version_folders s = (Inr vs, t)"
    and "map_of (release_area_of s) v = Some (Folder d)" and "check_version v = Inr ()"
  shows "v \<in> set vs"
proof -
  from assms(2) obtain es where es: "released s = Some es" "map_of es v = Some (Folder d)"
    by (cases "released s") (auto simp: release_area_of_def)
  from assms(1) es(1) obtain ws where
    ws: "scan (map fst es) [] s = (Inr ws, t)" "sorted_reverse version_strings_key ws = Inr vs"
    by (auto simp: get_version_folders_def split: prod.splits sum.splits)
  have "v \<in> set (map fst es)" using es(2) by (rule map_of_Some_key)
  moreover have "isdir_released v s" using es by (simp add: isdir_released_def)
  ultimately have "v \<in> set ws" using assms(3) by (intro scan_keeps[OF ws(1)]) simp
  then show ?thesis using sorted_reverse_set[OF ws(2)] by simp
qed



lemma collect_malformed:
  "f \<in> set files \<Longrightarrow> map_of d f = Some c \<Longrightarrow> malformed c \<Longrightarrow>
   isl (collect files d changes)"
proof (induction files arbitrary: changes)
  case Nil
  then show ?case by simp
next
  case (Cons g files)
  show ?case
  proof (cases "g = f")
    case True
    with Cons.prems show ?thesis
      by (cases c) (auto simp: malformed_def Let_def split: option.splits)
  next
    case False
    with Cons.prems have "f \<in> set files" by simp
    from Cons.IH[OF this Cons.prems(2,3)] show ?thesis
      by (auto simp: Let_def split: option.splits content.splits)
  qed
qed

lemma sections_fails:
  "v \<in> set vs \<Longrightarrow> isl (get_version_changes v s) \<Longrightarrow> isl (sections vs s r)"
proof (induction vs arbitrary: r)
  case Nil
  then show ?case by simp
next
  case (Cons w vs)
  show ?case
  proof (cases "v = w")
    case True
    with Cons.prems(2) show ?thesis by (auto split: sum.splits)
  next
    case False
    with Cons.prems(1) have "v \<in> set vs" by simp
    from Cons.IH[OF this Cons.prems(2)] show ?thesis by (auto split: sum.splits)
  qed
qed

lemma build_changelog_fails:
  assumes "map_of (release_area_of s) v = Some (Folder d)" and "check_version v = Inr ()"
    and "map_of d f = Some c" and "is_yml f" and "malformed c"
  shows "isl (fst (build_changelog s))"
proof -
  obtain r t where rt: "get_version_folders s = (r, t)" by (cases "get_version_folders s")
  have t: "t = s\<lparr>out := out t\<rparr>" using get_version_folders_frame[of s] rt by simp
  show ?thesis
  proof (cases r)
    case (Inl e)
    with rt show ?thesis by (simp add: build_changelog_def)
  next
    case (Inr vs)
    with rt assms(1,2) have v: "v \<in> set vs" by (auto intro: get_version_folders_lists)
    have "f \<in> set (filter is_yml (map fst d))"
      using map_of_Some_key[OF assms(3)] assms(4) by simp
    then have "isl (collect (filter is_yml (map fst d)) d [])"
      using assms(3,5) by (rule collect_malformed)
    then have "isl (get_version_changes v s)"
      using assms(1) by (auto simp: get_version_changes_def release_area_of_def split: option.splits)
    then have "isl (get_version_changes v t)" by (subst t) simp
    from sections_fails[OF v this, of "[header, nl]"] obtain e where "sections vs t [header, nl] = Inl e"
      by (cases "sections vs t [header, nl]") auto
    then show ?thesis using rt Inr by (simp add: build_changelog_def)
  qed
qed





lemmas build_defs =
  build_changelog_def get_version_folders_def isdir_released_def sorted_reverse_def
  get_release_info_def get_date_def get_version_changes_def is_yml_def author_block_def
  header_def heading_def



subsection \<open>A failed run leaves the changelog file alone\<close>

lemma move_frame:
  "move f version s = (r, t) \<Longrightarrow>
   changelog_md t = changelog_md s
   \<and> (v \<noteq> version \<longrightarrow> map_of (release_area_of t) v = map_of (release_area_of s) v)"
  by (auto simp: move_def release_area_of_def update_conv'
      split: option.splits entry.splits if_splits)

lemma move_all_frame:
  "move_all fs version s = (r, t) \<Longrightarrow>
   changelog_md t = changelog_md s
   \<and> (v \<noteq> version \<longrightarrow> map_of (release_area_of t) v = map_of (release_area_of s) v)"
proof (induction fs arbitrary: s)
  case Nil
  then show ?case by simp
next
  case (Cons f fs)
  obtain r1 s1 where step: "move f version s = (r1, s1)" by (cases "move f version s")
  note fr = move_frame[OF step, of v]
  show ?case
  proof (cases r1)
    case (Inl e)
    with Cons.prems step have "t = s1" by simp
    with fr show ?thesis by simp
  next
    case (Inr u)
    with Cons.prems step have "move_all fs version s1 = (r, t)" by simp
    from Cons.IH[OF this] fr show ?thesis by simp
  qed
qed

lemma makedirs_frame:
  "makedirs version s = (r, t) \<Longrightarrow>
   changelog_md t = changelog_md s
   \<and> (v \<noteq> version \<longrightarrow> map_of (release_area_of t) v = map_of (release_area_of s) v)"
  by (auto simp: makedirs_def release_area_of_def map_add_def split: option.splits if_splits)

lemma write_release_info_frame:
  "write_release_info version s = (r, t) \<Longrightarrow>
   changelog_md t = changelog_md s
   \<and> (v \<noteq> version \<longrightarrow> map_of (release_area_of t) v = map_of (release_area_of s) v)"
  by (auto simp: write_release_info_def release_area_of_def update_conv' Let_def
      split: option.splits entry.splits if_splits)

lemma move_unreleased_changelogs_frame:
  assumes "move_unreleased_changelogs version s = (r, t)"
  shows "changelog_md t = changelog_md s
   \<and> (v \<noteq> version \<longrightarrow> map_of (release_area_of t) v = map_of (release_area_of s) v)"
proof (cases "exists_released version s")
  case True
  with assms show ?thesis by (auto simp: move_unreleased_changelogs_def release_area_of_def)
next
  case False
  obtain r1 s1 where mk: "makedirs version s = (r1, s1)" by (cases "makedirs version s")
  note f1 = makedirs_frame[OF mk, of v]
  show ?thesis
  proof (cases r1)
    case (Inl e)
    with assms False mk have "t = s1" by (simp add: move_unreleased_changelogs_def)
    with f1 show ?thesis by simp
  next
    case (Inr u)
    show ?thesis
    proof (cases "unreleased s1")
      case None
      with assms False mk Inr have "t = s1" by (simp add: move_unreleased_changelogs_def)
      with f1 show ?thesis by simp
    next
      case (Some fs)
      show ?thesis
      proof (cases "filter is_yml (map fst fs) = []")
        case True
        with assms False mk Inr Some
        have "t = s1\<lparr>out := out s1 @ [''There is no unreleased changes.'']\<rparr>"
          by (simp add: move_unreleased_changelogs_def)
        with f1 show ?thesis by (simp add: release_area_of_def)
      next
        case ne: False
        obtain r2 s2 where mv: "move_all (filter is_yml (map fst fs)) version s1 = (r2, s2)"
          by (cases "move_all (filter is_yml (map fst fs)) version s1")
        note f2 = move_all_frame[OF mv, of v]
        show ?thesis
        proof (cases r2)
          case (Inl e)
          with assms False mk Inr Some ne mv have "t = s2"
            by (simp add: move_unreleased_changelogs_def)
          with f1 f2 show ?thesis by simp
        next
          case r2: (Inr u2)
          with assms False mk Inr Some ne mv have "write_release_info version s2 = (r, t)"
            by (simp add: move_unreleased_changelogs_def)
          from write_release_info_frame[OF this, of v] f1 f2 show ?thesis by simp
        qed
      qed
    qed
  qed
qed

lemma write_changelog_fails:
  assumes "isl (fst (build_changelog s))"
  shows "isl (fst (write_changelog s))
     \<and> changelog_md (snd (write_changelog s)) = changelog_md s"
proof -
  obtain r t where rt: "build_changelog s = (r, t)" by (cases "build_changelog s")
  have t: "t = s\<lparr>out := out t\<rparr>" using build_changelog_frame[of s] rt by simp
  have "changelog_md t = changelog_md s" by (subst t) simp
  with assms rt show ?thesis by (cases r) (simp_all add: write_changelog_def)
qed

lemma write_changelog_failure:
  assumes "isl (fst (write_changelog s))"
  shows "changelog_md (snd (write_changelog s)) = changelog_md s"
proof -
  obtain r t where rt: "build_changelog s = (r, t)" by (cases "build_changelog s")
  have t: "t = s\<lparr>out := out t\<rparr>" using build_changelog_frame[of s] rt by simp
  have "changelog_md t = changelog_md s" by (subst t) simp
  with assms rt show ?thesis by (cases r) (simp_all add: write_changelog_def)
qed

lemma main_failure:
  assumes "isl (fst (main rebuild version s))"
  shows "changelog_md (snd (main rebuild version s)) = changelog_md s"
proof (cases rebuild)
  case True
  with assms write_changelog_failure[of s] show ?thesis by (simp add: main_def)
next
  case False
  show ?thesis
  proof (cases "check_version version")
    case (Inl e)
    with False show ?thesis by (cases e) (simp_all add: main_def)
  next
    case (Inr u)
    obtain r1 s1 where mv: "move_unreleased_changelogs version s = (r1, s1)"
      by (cases "move_unreleased_changelogs version s")
    note fr = move_unreleased_changelogs_frame[OF mv, of version]
    show ?thesis
    proof (cases r1)
      case (Inl e)
      with False Inr mv fr show ?thesis by (simp add: main_def)
    next
      case r1: (Inr u1)
      with False Inr mv have m: "main rebuild version s = write_changelog s1"
        by (simp add: main_def)
      with assms have "isl (fst (write_changelog s1))" by simp
      from write_changelog_failure[OF this] m fr show ?thesis by simp
    qed
  qed
qed

lemma map_of_snoc_Some: "map_of d f = Some c \<Longrightarrow> map_of (d @ [(g, c')]) f = Some c"
  by (simp add: map_add_def)

lemma map_of_snoc_new: "map_of d f = None \<Longrightarrow> map_of (d @ [(f, c)]) f = Some c"
  by (simp add: map_add_def)

lemma move_keeps:
  assumes "move g version t = (Inr u, t')"
    and "map_of (release_area_of t) version = Some (Folder d)" and "map_of d f = Some c"
  shows "\<exists>d'. map_of (release_area_of t') version = Some (Folder d') \<and> map_of d' f = Some c"
proof -
  from assms(2) obtain es where es: "released t = Some es" "map_of es version = Some (Folder d)"
    by (cases "released t") (auto simp: release_area_of_def)
  from assms(1) es obtain us c' where
    t': "t' = t\<lparr>unreleased := Some (AList.delete g us),
                released := Some (AList.update version (Folder (d @ [(g, c')])) es)\<rparr>"
    by (auto simp: move_def split: option.splits if_splits)
  have "map_of (release_area_of t') version = Some (Folder (d @ [(g, c')]))"
    by (simp add: t' release_area_of_def update_conv')
  moreover have "map_of (d @ [(g, c')]) f = Some c" using assms(3) by (rule map_of_snoc_Some)
  ultimately show ?thesis by blast
qed

lemma move_puts:
  assumes "move f version t = (Inr u, t')"
    and "unreleased t = Some us" and "map_of us f = Some c"
  shows "\<exists>d'. map_of (release_area_of t') version = Some (Folder d') \<and> map_of d' f = Some c"
proof -
  from assms obtain es d where
    es: "released t = Some es" "map_of es version = Some (Folder d)" "map_of d f = None"
    and t': "t' = t\<lparr>unreleased := Some (AList.delete f us),
                released := Some (AList.update version (Folder (d @ [(f, c)])) es)\<rparr>"
    by (auto simp: move_def split: option.splits entry.splits if_splits)
  have "map_of (release_area_of t') version = Some (Folder (d @ [(f, c)]))"
    by (simp add: t' release_area_of_def update_conv')
  moreover have "map_of (d @ [(f, c)]) f = Some c" using es(3) by (rule map_of_snoc_new)
  ultimately show ?thesis by blast
qed

lemma move_other:
  assumes "move g version t = (Inr u, t')" and "g \<noteq> f"
    and "unreleased t = Some us" and "map_of us f = Some c"
  shows "\<exists>us'. unreleased t' = Some us' \<and> map_of us' f = Some c"
  using assms by (auto simp: move_def split: option.splits entry.splits if_splits)

lemma move_all_keeps:
  "move_all ns version t = (Inr u, t') \<Longrightarrow>
   map_of (release_area_of t) version = Some (Folder d) \<Longrightarrow> map_of d f = Some c \<Longrightarrow>
   \<exists>d'. map_of (release_area_of t') version = Some (Folder d') \<and> map_of d' f = Some c"
proof (induction ns arbitrary: t d)
  case Nil
  then show ?case by auto
next
  case (Cons g ns)
  obtain r1 t1 where step: "move g version t = (r1, t1)" by (cases "move g version t")
  with Cons.prems(1) obtain u1 where r1: "r1 = Inr u1" by (cases r1) auto
  with Cons.prems(1) step have rest: "move_all ns version t1 = (Inr u, t')" by simp
  from move_keeps[OF step[unfolded r1] Cons.prems(2,3)] obtain d1 where
    "map_of (release_area_of t1) version = Some (Folder d1)" "map_of d1 f = Some c" by blast
  from Cons.IH[OF rest this] show ?case .
qed

lemma move_all_puts:
  "f \<in> set ns \<Longrightarrow> move_all ns version t = (Inr u, t') \<Longrightarrow>
   unreleased t = Some us \<Longrightarrow> map_of us f = Some c \<Longrightarrow>
   \<exists>d'. map_of (release_area_of t') version = Some (Folder d') \<and> map_of d' f = Some c"
proof (induction ns arbitrary: t us)
  case Nil
  then show ?case by simp
next
  case (Cons g ns)
  obtain r1 t1 where step: "move g version t = (r1, t1)" by (cases "move g version t")
  with Cons.prems(2) obtain u1 where r1: "r1 = Inr u1" by (cases r1) auto
  with Cons.prems(2) step have rest: "move_all ns version t1 = (Inr u, t')" by simp
  show ?case
  proof (cases "g = f")
    case True
    from move_puts[OF step[unfolded r1 True] Cons.prems(3,4)] obtain d1 where
      "map_of (release_area_of t1) version = Some (Folder d1)" "map_of d1 f = Some c" by blast
    from move_all_keeps[OF rest this] show ?thesis .
  next
    case False
    with Cons.prems(1) have mem: "f \<in> set ns" by auto
    from move_other[OF step[unfolded r1] False Cons.prems(3,4)] obtain us1 where
      "unreleased t1 = Some us1" "map_of us1 f = Some c" by blast
    from Cons.IH[OF mem rest this] show ?thesis .
  qed
qed

lemma write_release_info_keeps:
  assumes "write_release_info version t = (Inr u, t')"
    and "map_of (release_area_of t) version = Some (Folder d)" and "map_of d f = Some c"
    and "f \<noteq> ''release-info''"
  shows "\<exists>d'. map_of (release_area_of t') version = Some (Folder d') \<and> map_of d' f = Some c"
proof -
  from assms(2) obtain es where es: "released t = Some es" "map_of es version = Some (Folder d)"
    by (cases "released t") (auto simp: release_area_of_def)
  let ?info = "Mapping [(''date'', today t), (''released_by'', git_user t)]"
  let ?d' = "AList.update ''release-info'' ?info d"
  from assms(1) es have "map_of (release_area_of t') version = Some (Folder ?d')"
    by (auto simp: write_release_info_def release_area_of_def update_conv' Let_def
        split: if_splits)
  moreover have "map_of ?d' f = Some c" using assms(3,4) by (simp add: update_conv')
  ultimately show ?thesis by blast
qed

lemma release_reads_unreleased:
  assumes "move_unreleased_changelogs version s = (Inr u, t)"
    and "unreleased s = Some fs" and "map_of fs f = Some c" and "is_yml f"
  shows "\<exists>d. map_of (release_area_of t) version = Some (Folder d) \<and> map_of d f = Some c"
proof -
  from assms(1) have fresh: "\<not> exists_released version s"
    by (auto simp: move_unreleased_changelogs_def split: if_splits)
  let ?s1 = "s\<lparr>released := Some (release_area_of s @ [(version, Folder [])])\<rparr>"
  let ?ns = "filter is_yml (map fst fs)"
  have mk: "makedirs version s = (Inr (), ?s1)" by (rule makedirs_fresh[OF fresh])
  have mem: "f \<in> set ?ns" using map_of_Some_key[OF assms(3)] assms(4) by simp
  have ne: "?ns \<noteq> []"
  proof
    assume "?ns = []"
    with mem show False by (simp only: set_empty2[symmetric] empty_iff list.set)
  qed
  obtain r2 s2 where mv: "move_all ?ns version ?s1 = (r2, s2)"
    by (cases "move_all ?ns version ?s1")
  from assms(1,2) fresh mk ne mv obtain u2 where r2: "r2 = Inr u2"
    by (cases r2) (auto simp: move_unreleased_changelogs_def)
  from assms(1,2) fresh mk ne mv r2 have wr: "write_release_info version s2 = (Inr u, t)"
    by (simp add: move_unreleased_changelogs_def)
  have "unreleased ?s1 = Some fs" using assms(2) by simp
  from move_all_puts[OF mem mv[unfolded r2] this assms(3)] obtain d2 where
    d2: "map_of (release_area_of s2) version = Some (Folder d2)" "map_of d2 f = Some c" by blast
  have "f \<noteq> ''release-info''" using assms(4) release_info_not_yml by auto
  from write_release_info_keeps[OF wr d2 this] show ?thesis .
qed

text \<open>
  C7. A fragment is read in the aggregation pass when it lies in a folder of the release
  area whose name validates, or, on a run without \<^verbatim>\<open>--rebuild\<close>, when it is one of
  the unreleased \<^verbatim>\<open>.yml\<close> files, which the release moves into the new version folder
  first. When such a fragment is malformed, the run of \<^verbatim>\<open>main\<close> ends in an exception
  and \<^verbatim>\<open>CHANGELOG.md\<close> is what it was before the run. More generally no run that ends
  in an exception has written \<^verbatim>\<open>CHANGELOG.md\<close>: the file is opened only once
  \<^verbatim>\<open>build_changelog\<close> has returned the whole sequence of lines.
\<close>

theorem malformed_fragment_aborts:
  assumes "(released s = Some es \<and> map_of es v = Some (Folder d) \<and> check_version v = Inr ()
             \<and> map_of d f = Some c)
           \<or> (\<not> rebuild \<and> unreleased s = Some fs \<and> map_of fs f = Some c)"
    and "is_yml f" and "malformed c"
  shows "isl (fst (main rebuild version s))
     \<and> changelog_md (snd (main rebuild version s)) = changelog_md s
     \<and> (isl (fst (main rebuild' version' s')) \<longrightarrow>
          changelog_md (snd (main rebuild' version' s')) = changelog_md s')"
proof -
  have general: "isl (fst (main rebuild' version' s')) \<longrightarrow>
          changelog_md (snd (main rebuild' version' s')) = changelog_md s'"
    using main_failure by blast
  have fails: "isl (fst (main rebuild version s))"
  proof (cases rebuild)
    case True
    with assms(1) have "map_of (release_area_of s) v = Some (Folder d)"
      "check_version v = Inr ()" "map_of d f = Some c"
      by (auto simp: release_area_of_def)
    from write_changelog_fails[OF build_changelog_fails[OF this assms(2,3)]] True
    show ?thesis by (simp add: main_def)
  next
    case False
    show ?thesis
    proof (cases "check_version version")
      case (Inl e)
      with False show ?thesis by (cases e) (simp_all add: main_def)
    next
      case (Inr u)
      obtain r1 s1 where mv: "move_unreleased_changelogs version s = (r1, s1)"
        by (cases "move_unreleased_changelogs version s")
      show ?thesis
      proof (cases r1)
        case (Inl e)
        with False Inr mv show ?thesis by (simp add: main_def)
      next
        case r1: (Inr u1)
        have "\<exists>w dw. map_of (release_area_of s1) w = Some (Folder dw)
                \<and> check_version w = Inr () \<and> map_of dw f = Some c"
          using assms(1)
        proof
          assume a: "released s = Some es \<and> map_of es v = Some (Folder d)
             \<and> check_version v = Inr () \<and> map_of d f = Some c"
          have "v \<noteq> version"
          proof
            assume "v = version"
            then have "exists_released version s"
              using a by (simp add: exists_released_def)
            with mv r1 show False by (simp add: move_unreleased_changelogs_def)
          qed
          with move_unreleased_changelogs_frame[OF mv, of v] a
          have "map_of (release_area_of s1) v = Some (Folder d)"
            by (simp add: release_area_of_def)
          with a show ?thesis by blast
        next
          assume b: "\<not> rebuild \<and> unreleased s = Some fs \<and> map_of fs f = Some c"
          from release_reads_unreleased[OF mv[unfolded r1] _ _ assms(2)] b obtain dw where
            "map_of (release_area_of s1) version = Some (Folder dw)" "map_of dw f = Some c"
            by blast
          with Inr show ?thesis by (cases u) blast
        qed
        then obtain w dw where
          "map_of (release_area_of s1) w = Some (Folder dw)" "check_version w = Inr ()"
          "map_of dw f = Some c" by blast
        from write_changelog_fails[OF build_changelog_fails[OF this assms(2,3)]]
        show ?thesis using False Inr mv r1 by (simp add: main_def)
      qed
    qed
  qed
  with general main_failure[OF fails] show ?thesis by blast
qed


lemmas release_defs =
  main_def write_changelog_def move_unreleased_changelogs_def exists_released_def makedirs_def
  move_def write_release_info_def

theorem malformed_fragment_aborts_witness:
  "fst (main True ''v'' (release_area
      [(''v1.0'', Folder [(''x.yml'', Mapping [(''author'', ''ana'')])])]))
     = Inl (KeyError ''title'')
   \<and> changelog_md (snd (main True ''v'' (release_area
      [(''v1.0'', Folder [(''x.yml'', Mapping [(''author'', ''ana'')])])]))) = None
   \<and> fst (main False ''v2.0'' (pending\<lparr>unreleased := Some [(''bad.yml'', Undecodable)]\<rparr>))
     = Inl YAMLError
   \<and> changelog_md
       (snd (main False ''v2.0'' (pending\<lparr>unreleased := Some [(''bad.yml'', Undecodable)]\<rparr>)))
     = None"
proof -
  let ?d = "[(''x.yml'', Mapping [(''author'', ''ana'')])]"
  let ?es = "[(''v1.0'', Folder ?d)]"
  let ?bad = "pending\<lparr>unreleased := Some [(''bad.yml'', Undecodable)]\<rparr>"
  have 1: "(released (release_area ?es) = Some ?es \<and> map_of ?es ''v1.0'' = Some (Folder ?d)
             \<and> check_version ''v1.0'' = Inr ()
             \<and> map_of ?d ''x.yml'' = Some (Mapping [(''author'', ''ana'')]))
           \<or> (\<not> True \<and> unreleased (release_area ?es) = Some []
                \<and> map_of [] ''x.yml'' = Some (Mapping [(''author'', ''ana'')]))"
    by (simp add: release_area_def version_defs)
  have 2: "is_yml ''x.yml''" by (simp add: is_yml_def)
  have 3: "malformed (Mapping [(''author'', ''ana'')])" by (simp add: malformed_def)
  have run: "fst (main True ''v'' (release_area ?es)) = Inl (KeyError ''title'')"
    by (simp add: release_defs build_defs version_defs release_area_def)
  have 4: "(released ?bad = Some [] \<and> map_of [] ''v'' = Some (Folder [])
             \<and> check_version ''v'' = Inr () \<and> map_of [] ''bad.yml'' = Some Undecodable)
           \<or> (\<not> False \<and> unreleased ?bad = Some [(''bad.yml'', Undecodable)]
                \<and> map_of [(''bad.yml'', Undecodable)] ''bad.yml'' = Some Undecodable)"
    by simp
  have 5: "is_yml ''bad.yml''" by (simp add: is_yml_def)
  have 6: "malformed Undecodable" by (simp add: malformed_def)
  have run': "fst (main False ''v2.0'' ?bad) = Inl YAMLError"
    by (simp add: release_defs build_defs version_defs pending_def)
  from malformed_fragment_aborts[OF 1 2 3, of "''v''"] run
    malformed_fragment_aborts[OF 4 5 6, of "''v2.0''"] run'
  show ?thesis by (simp add: release_area_def pending_def)
qed


end
